theory Spec2Isabelle
  imports Complex_Main "HOL-Library.Word" "HOL-Library.Char_ord" "HOL-Library.List_Lexorder"
begin

unbundle bit_operations_syntax

section \<open>Data model\<close>

text \<open>
  The four source files (question2.py, question3.py, question5.py, question6.py) each
  define the same class \<open>MerkleTree\<close> with the same constructor, builder, root and height
  queries, proof generator and proof verifier; question3.py adds \<open>check_integrity\<close>,
  question5.py and question6.py add \<open>update_leaf\<close>, and question6.py extends
  \<open>_hash_data\<close> to dictionaries.

  A Python \<open>str\<close> is modelled as a \<open>string\<close> whose characters are the code points below
  256, a \<open>bytes\<close> object as a list of 8-bit words. \<open>hashlib.sha256(b).hexdigest()\<close> is
  library code: every operation takes it as the parameter \<open>H\<close>, a function from bytes to
  the hexadecimal digest string.
\<close>

type_synonym bytes = "8 word list"

type_synonym hasher = "bytes \<Rightarrow> string"

datatype error = IndexError | TypeError

text \<open>The items the class of question2/3/5 hashes without raising: text and raw bytes.\<close>

datatype item = Str string | Bytes bytes

text \<open>A proof step is the dictionary \<open>{'hash': ..., 'position': ...}\<close>.\<close>

record proof_step =
  hash :: string
  position :: string

text \<open>The object state: the attributes \<open>self.leaves\<close> and \<open>self.tree\<close>.\<close>

record merkle_tree =
  leaves :: "string list"
  tree :: "string list list"

section \<open>Python primitives\<close>

text \<open>\<open>xs[i]\<close>: a negative index counts from the end, out of range raises IndexError.\<close>

definition py_index :: "'a list \<Rightarrow> int \<Rightarrow> error + 'a" where
  "py_index xs i =
     (if 0 \<le> i \<and> i < int (length xs) then Inr (xs ! nat i)
      else if i < 0 \<and> - int (length xs) \<le> i then Inr (xs ! nat (int (length xs) + i))
      else Inl IndexError)"

text \<open>\<open>s.encode('utf-8')\<close> on code points below 256: one byte below 128, two bytes above.\<close>

definition encode_char :: "char \<Rightarrow> bytes" where
  "encode_char c =
     (let n = (of_char c :: nat)
      in if n < 128 then [of_nat n] else [of_nat (192 + n div 64), of_nat (128 + n mod 64)])"

definition encode_utf8 :: "string \<Rightarrow> bytes" where
  "encode_utf8 s = concat (map encode_char s)"

section \<open>The class of question2.py\<close>

text \<open>\<open>_hash_data\<close>: text is encoded first, bytes are hashed as they are.\<close>

definition hash_data :: "hasher \<Rightarrow> item \<Rightarrow> string" where
  "hash_data H data = (case data of Str s \<Rightarrow> H (encode_utf8 s) | Bytes b \<Rightarrow> H b)"

text \<open>
  The inner \<open>for i in range(0, len(current_level), 2)\<close> loop of \<open>_build_tree\<close>: it takes
  the nodes two at a time, and pairs a last unmatched node with itself.
\<close>

fun next_level :: "hasher \<Rightarrow> string list \<Rightarrow> string list" where
  "next_level H [] = []"
| "next_level H [left] = [hash_data H (Str (left @ left))]"
| "next_level H (left # right # rest) = hash_data H (Str (left @ right)) # next_level H rest"

lemma length_next_level: "length (next_level H xs) = (length xs + 1) div 2"
  by (induction H xs rule: next_level.induct) simp_all

text \<open>
  The \<open>while len(current_level) > 1\<close> loop: the levels appended to \<open>tree\<close> after the
  leaf level.
\<close>

function build_levels :: "hasher \<Rightarrow> string list \<Rightarrow> string list list" where
  "build_levels H current_level =
     (if length current_level > 1
      then next_level H current_level # build_levels H (next_level H current_level)
      else [])"
  by pat_completeness auto
termination
  by (relation "measure (\<lambda>(H, xs). length xs)") (auto simp: length_next_level)

declare build_levels.simps [simp del]

definition build_tree :: "hasher \<Rightarrow> string list \<Rightarrow> string list list" where
  "build_tree H lvs = lvs # build_levels H lvs"

text \<open>\<open>__init__\<close>.\<close>

definition construct :: "hasher \<Rightarrow> item list \<Rightarrow> merkle_tree" where
  "construct H data_list =
     (let lvs = map (hash_data H) data_list
      in \<lparr>leaves = lvs, tree = build_tree H lvs\<rparr>)"

text \<open>\<open>get_root\<close>: \<open>self.tree[-1][0] if self.tree else None\<close>; \<open>None\<close> is \<open>Inr None\<close>.\<close>

definition get_root :: "merkle_tree \<Rightarrow> error + string option" where
  "get_root t =
     (if tree t \<noteq> []
      then (case py_index (tree t) (- 1) of
              Inl e \<Rightarrow> Inl e
            | Inr top_level \<Rightarrow> (case py_index top_level 0 of Inl e \<Rightarrow> Inl e | Inr h \<Rightarrow> Inr (Some h)))
      else Inr None)"

definition get_tree_height :: "merkle_tree \<Rightarrow> nat" where
  "get_tree_height t = length (tree t)"

text \<open>
  The loop of \<open>get_proof\<close> over the levels \<open>self.tree[0] .. self.tree[len - 2]\<close>, with the
  running \<open>index\<close> and the \<open>proof\<close> list built so far.
\<close>

fun proof_loop :: "string list list \<Rightarrow> int \<Rightarrow> proof_step list \<Rightarrow> error + proof_step list" where
  "proof_loop [] index prf = Inr prf"
| "proof_loop (lvl # lvls) index prf =
     (let sibling_index = index XOR 1
      in if sibling_index < int (length lvl)
         then (case py_index lvl sibling_index of
                 Inl e \<Rightarrow> Inl e
               | Inr h \<Rightarrow>
                   proof_loop lvls (index div 2)
                     (prf @ [\<lparr>hash = h,
                              position = (if sibling_index < index then ''left'' else ''right'')\<rparr>]))
         else proof_loop lvls (index div 2) prf)"

definition get_proof :: "merkle_tree \<Rightarrow> int \<Rightarrow> error + proof_step list" where
  "get_proof t index =
     (if index < 0 \<or> index \<ge> int (length (leaves t)) then Inl IndexError
      else proof_loop (take (length (tree t) - 1) (tree t)) index [])"

text \<open>The loop of \<open>verify_proof\<close> over the steps, with the running \<open>current_hash\<close>.\<close>

fun verify_loop :: "hasher \<Rightarrow> string \<Rightarrow> proof_step list \<Rightarrow> string" where
  "verify_loop H current_hash [] = current_hash"
| "verify_loop H current_hash (sibling # rest) =
     verify_loop H
       (if position sibling = ''left'' then hash_data H (Str (hash sibling @ current_hash))
        else if position sibling = ''right'' then hash_data H (Str (current_hash @ hash sibling))
        else current_hash)
       rest"

definition verify_proof :: "hasher \<Rightarrow> item \<Rightarrow> proof_step list \<Rightarrow> string \<Rightarrow> bool" where
  "verify_proof H leaf prf root_hash = (verify_loop H (hash_data H leaf) prf = root_hash)"

section \<open>\<open>check_integrity\<close> of question3.py\<close>

text \<open>
  \<open>combine_hashes\<close>: \<open>None\<close> children are \<open>None\<close> here; with both absent the source calls
  \<open>_hash_data(None)\<close>, and \<open>hashlib.sha256(None)\<close> raises TypeError.
\<close>

definition combine_hashes :: "hasher \<Rightarrow> string option \<Rightarrow> string option \<Rightarrow> error + string" where
  "combine_hashes H left right =
     (case left of
        None \<Rightarrow> (case right of None \<Rightarrow> Inl TypeError | Some r \<Rightarrow> Inr (hash_data H (Str r)))
      | Some l \<Rightarrow> (case right of None \<Rightarrow> Inr (hash_data H (Str l))
                               | Some r \<Rightarrow> Inr (hash_data H (Str (l @ r)))))"

text \<open>
  The inner loop \<open>for i in range(len(self.tree[level]))\<close>: both children and the node
  compared are read from the same list \<open>self.tree[level]\<close>.
\<close>

fun check_nodes :: "hasher \<Rightarrow> string list \<Rightarrow> nat list \<Rightarrow> error + bool" where
  "check_nodes H lvl [] = Inr True"
| "check_nodes H lvl (i # is) =
     (let left = (if i * 2 < length lvl then Some (lvl ! (i * 2)) else None);
          right = (if i * 2 + 1 < length lvl then Some (lvl ! (i * 2 + 1)) else None)
      in case combine_hashes H left right of
           Inl e \<Rightarrow> Inl e
         | Inr combined \<Rightarrow> if lvl ! i \<noteq> combined then Inr False else check_nodes H lvl is)"

text \<open>The outer loop, over the levels it visits in its order.\<close>

fun check_levels :: "hasher \<Rightarrow> string list list \<Rightarrow> error + bool" where
  "check_levels H [] = Inr True"
| "check_levels H (lvl # lvls) =
     (case check_nodes H lvl [0..<length lvl] of
        Inl e \<Rightarrow> Inl e
      | Inr ok \<Rightarrow> if ok then check_levels H lvls else Inr False)"

text \<open>\<open>range(len(self.tree) - 2, -1, -1)\<close> visits all levels but the top one, downwards.\<close>

definition check_integrity :: "hasher \<Rightarrow> merkle_tree \<Rightarrow> error + bool" where
  "check_integrity H t = check_levels H (rev (take (length (tree t) - 1) (tree t)))"

section \<open>\<open>update_leaf\<close> of question5.py\<close>

text \<open>
  The method mutates the object, so the model returns the outcome together with the state
  the object is left in. \<open>self.tree[0]\<close> and \<open>self.leaves\<close> are one list object; the whole
  tree is rebuilt from the updated list, so the sharing is not observable afterwards.
\<close>

definition update_leaf :: "hasher \<Rightarrow> int \<Rightarrow> item \<Rightarrow> merkle_tree \<Rightarrow> (error + unit) \<times> merkle_tree" where
  "update_leaf H index new_value t =
     (if index < 0 \<or> index \<ge> int (length (leaves t)) then (Inl IndexError, t)
      else (let lvs = (leaves t)[nat index := hash_data H new_value]
            in (Inr (), \<lparr>leaves = lvs, tree = build_tree H lvs\<rparr>)))"

section \<open>\<open>_hash_data\<close> of question6.py\<close>

text \<open>
  question6.py hashes dictionaries too: \<open>json.dumps(data, sort_keys=True)\<close>, encoded as
  UTF-8. A dictionary is the list of its items in insertion order, with pairwise distinct
  keys; the keys are text. \<open>json.dumps\<close> is library code: how it writes a key and how it
  writes a value are the parameters \<open>enc_key\<close> and \<open>enc_val\<close>; what is written out here is
  the order of the items and the separators \<open>', '\<close> and \<open>': '\<close> of the default call. With
  \<open>sort_keys\<close> the items are sorted as pairs; the keys of a dictionary differ, so this is
  the stable sort by key.
\<close>

datatype 'v item6 = Dict "(string \<times> 'v) list" | Text string | Raw bytes

text \<open>\<open>sep.join(parts)\<close>.\<close>

fun join :: "string \<Rightarrow> string list \<Rightarrow> string" where
  "join sep [] = []"
| "join sep [x] = x"
| "join sep (x # y # rest) = x @ sep @ join sep (y # rest)"

definition json_dumps_sorted ::
  "(string \<Rightarrow> string) \<Rightarrow> ('v \<Rightarrow> string) \<Rightarrow> (string \<times> 'v) list \<Rightarrow> string" where
  "json_dumps_sorted enc_key enc_val d =
     ''{'' @ join '', '' (map (\<lambda>(k, v). enc_key k @ '': '' @ enc_val v) (sort_key fst d)) @ ''}''"

definition hash_data6 ::
  "hasher \<Rightarrow> (string \<Rightarrow> string) \<Rightarrow> ('v \<Rightarrow> string) \<Rightarrow> 'v item6 \<Rightarrow> string" where
  "hash_data6 H enc_key enc_val data =
     (case data of
        Dict d \<Rightarrow> H (encode_utf8 (json_dumps_sorted enc_key enc_val d))
      | Text s \<Rightarrow> H (encode_utf8 s)
      | Raw b \<Rightarrow> H b)"

section \<open>A hasher for the concrete instances\<close>

text \<open>
  The theorems below hold for every hasher. Where a theorem is applied to a concrete
  tree, the hasher is this one: it returns the bytes it is given as text, so it has no
  collisions at all (SHA-256 has none that anyone can exhibit).
\<close>

definition bytes_as_text :: hasher where
  "bytes_as_text b = map (\<lambda>w. char_of (unat w)) b"

section \<open>Facts about the builder\<close>

lemma build_levels_short: "length xs \<le> 1 \<Longrightarrow> build_levels H xs = []"
  by (simp add: build_levels.simps)

lemma build_levels_long:
  "1 < length xs \<Longrightarrow> build_levels H xs = next_level H xs # build_levels H (next_level H xs)"
  by (subst build_levels.simps) simp

lemma leaves_construct: "leaves (construct H items) = map (hash_data H) items"
  by (simp add: construct_def Let_def)

lemma tree_construct: "tree (construct H items) = build_tree H (map (hash_data H) items)"
  by (simp add: construct_def Let_def)

section \<open>Empty tree\<close>

text \<open>
  C3. The claim: the root query on a tree built from no items gives an absent value and
  does not raise. The builder returns \<open>[[]]\<close> for no leaves, a non-empty list, so the
  guard \<open>if self.tree\<close> passes and \<open>self.tree[-1][0]\<close> reads index 0 of the empty level:
  the query raises IndexError.
\<close>

theorem get_root_empty_raises: "get_root (construct H []) = Inl IndexError"
  by (simp add: get_root_def construct_def build_tree_def build_levels.simps py_index_def)

section \<open>Index checks\<close>

lemma proof_loop_returns: "0 \<le> index \<Longrightarrow> \<exists>p. proof_loop lvls index acc = Inr p"
proof (induction lvls arbitrary: index acc)
  case Nil
  then show ?case by simp
next
  case (Cons lvl lvls)
  have d: "0 \<le> index div 2" using Cons.prems by simp
  have x: "0 \<le> index XOR 1" using Cons.prems by simp
  show ?case using Cons.IH[OF d] x
    by (simp add: Let_def py_index_def)
qed

text \<open>
  C7. On a tree of \<open>n\<close> leaves, \<open>get_proof i\<close> returns a proof when \<open>0 \<le> i < n\<close> and
  raises IndexError for every other index, in particular for \<open>-1\<close> and for \<open>n\<close>; with no
  leaves every index fails. Inside the loop the sibling is read only under the bound
  test, so the loop itself never raises.
\<close>

theorem get_proof_range:
  "(0 \<le> i \<and> i < int (length items) \<longrightarrow> (\<exists>p. get_proof (construct H items) i = Inr p)) \<and>
   (\<not> (0 \<le> i \<and> i < int (length items)) \<longrightarrow> get_proof (construct H items) i = Inl IndexError) \<and>
   get_proof (construct H items) (- 1) = Inl IndexError \<and>
   get_proof (construct H items) (int (length items)) = Inl IndexError"
  using proof_loop_returns[of i "take (length (tree (construct H items)) - 1) (tree (construct H items))" "[]"]
  by (auto simp: get_proof_def leaves_construct)

theorem get_proof_range_witness:
  "(\<exists>p. get_proof (construct bytes_as_text [Str ''a'', Str ''b'', Str ''c'']) 2 = Inr p) \<and>
   get_proof (construct bytes_as_text [Str ''a'', Str ''b'', Str ''c'']) 3 = Inl IndexError \<and>
   get_proof (construct bytes_as_text [Str ''a'', Str ''b'', Str ''c'']) (- 1) = Inl IndexError \<and>
   get_proof (construct bytes_as_text []) 0 = Inl IndexError"
  using get_proof_range[of 2 "[Str ''a'', Str ''b'', Str ''c'']" bytes_as_text]
    get_proof_range[of 0 "[]" bytes_as_text]
  by simp

text \<open>
  C6. \<open>update_leaf\<close> with an index outside \<open>[0, leaf_count)\<close> raises IndexError and leaves
  both \<open>self.leaves\<close> and \<open>self.tree\<close> as they were: the test comes before the assignment.
\<close>

theorem update_leaf_out_of_range:
  "index < 0 \<or> index \<ge> int (length (leaves t)) \<Longrightarrow> update_leaf H index v t = (Inl IndexError, t)"
  by (simp add: update_leaf_def)

theorem update_leaf_out_of_range_witness:
  "update_leaf bytes_as_text (- 1) (Str ''z'') (construct bytes_as_text [Str ''a'', Str ''b''])
     = (Inl IndexError, construct bytes_as_text [Str ''a'', Str ''b'']) \<and>
   update_leaf bytes_as_text 2 (Str ''z'') (construct bytes_as_text [Str ''a'', Str ''b''])
     = (Inl IndexError, construct bytes_as_text [Str ''a'', Str ''b''])"
  using update_leaf_out_of_range[of "- 1" "construct bytes_as_text [Str ''a'', Str ''b'']" bytes_as_text "Str ''z''"]
    update_leaf_out_of_range[of 2 "construct bytes_as_text [Str ''a'', Str ''b'']" bytes_as_text "Str ''z''"]
  by (simp add: leaves_construct)

section \<open>Proof steps with an unknown position\<close>

lemma verify_loop_skip:
  "position s \<noteq> ''left'' \<Longrightarrow> position s \<noteq> ''right'' \<Longrightarrow>
   verify_loop H c (xs @ s # ys) = verify_loop H c (xs @ ys)"
  by (induction xs arbitrary: c) simp_all

lemma verify_loop_all_skipped:
  "\<forall>s \<in> set steps. position s \<noteq> ''left'' \<and> position s \<noteq> ''right'' \<Longrightarrow>
   verify_loop H c steps = c"
  by (induction steps arbitrary: c) simp_all

text \<open>
  C10. A step whose position is neither \<open>'left'\<close> nor \<open>'right'\<close> matches neither branch of
  the \<open>if\<close>/\<open>elif\<close>: it can be dropped from any proof without changing the verdict, and
  a proof made of such steps only is accepted exactly when the leaf hash is the root.
\<close>

theorem verify_proof_unknown_position:
  "(position s \<noteq> ''left'' \<and> position s \<noteq> ''right'' \<longrightarrow>
      verify_proof H leaf (xs @ s # ys) r = verify_proof H leaf (xs @ ys) r) \<and>
   ((\<forall>s \<in> set steps. position s \<noteq> ''left'' \<and> position s \<noteq> ''right'') \<longrightarrow>
      verify_proof H leaf steps r = (hash_data H leaf = r))"
  by (simp add: verify_proof_def verify_loop_skip verify_loop_all_skipped)

theorem verify_proof_unknown_position_witness:
  "verify_proof bytes_as_text (Str ''a'')
     ([\<lparr>hash = ''b'', position = ''right''\<rparr>] @ \<lparr>hash = ''x'', position = ''up''\<rparr> # []) ''ab''
     = verify_proof bytes_as_text (Str ''a'') ([\<lparr>hash = ''b'', position = ''right''\<rparr>] @ []) ''ab'' \<and>
   verify_proof bytes_as_text (Str ''a'')
     [\<lparr>hash = ''x'', position = ''up''\<rparr>, \<lparr>hash = ''y'', position = ''Left''\<rparr>] ''a''
     = (hash_data bytes_as_text (Str ''a'') = ''a'')"
  using verify_proof_unknown_position[of "\<lparr>hash = ''x'', position = ''up''\<rparr>" bytes_as_text "Str ''a''"
      "[\<lparr>hash = ''b'', position = ''right''\<rparr>]" "[]" "''ab''"
      "[\<lparr>hash = ''x'', position = ''up''\<rparr>, \<lparr>hash = ''y'', position = ''Left''\<rparr>]"]
    verify_proof_unknown_position[of "\<lparr>hash = ''x'', position = ''up''\<rparr>" bytes_as_text "Str ''a''"
      "[]" "[]" "''a''"
      "[\<lparr>hash = ''x'', position = ''up''\<rparr>, \<lparr>hash = ''y'', position = ''Left''\<rparr>]"]
  by simp

section \<open>The integrity checker\<close>

lemma check_nodes_pair:
  "check_nodes H [x, y] [0..<length [x, y]] \<noteq> Inr True"
proof -
  have "[0..<length [x, y]] = [0, Suc 0]" by (simp add: upt_rec)
  then show ?thesis by (simp add: combine_hashes_def Let_def)
qed

lemma check_levels_first:
  "check_nodes H lvl [0..<length lvl] \<noteq> Inr True \<Longrightarrow> check_levels H (lvl # lvls) \<noteq> Inr True"
  by (cases "check_nodes H lvl [0..<length lvl]") auto

lemma below_top_has_two:
  "2 \<le> length xs \<Longrightarrow> length (last (butlast (xs # build_levels H xs))) = 2"
proof (induction H xs rule: build_levels.induct)
  case (1 H xs)
  let ?n = "next_level H xs"
  have step: "build_levels H xs = ?n # build_levels H ?n"
    using "1.prems" by (simp add: build_levels_long)
  show ?case
  proof (cases "2 \<le> length ?n")
    case True
    have "length (last (butlast (?n # build_levels H ?n))) = 2"
      using "1.IH" "1.prems" True by simp
    moreover have "build_levels H ?n \<noteq> []"
      using True by (simp add: build_levels_long)
    ultimately show ?thesis by (simp add: step)
  next
    case False
    then have "length xs = 2" using "1.prems" by (simp add: length_next_level)
    moreover have "build_levels H ?n = []" using False by (simp add: build_levels_short)
    ultimately show ?thesis by (simp add: step)
  qed
qed

lemma length_two_cases: "length zs = 2 \<Longrightarrow> \<exists>x y. zs = [x, y]"
  by (cases zs; cases "tl zs") auto

lemma rev_last_first: "ls \<noteq> [] \<Longrightarrow> rev ls = last ls # rev (butlast ls)"
  by (cases ls rule: rev_cases) auto

lemma check_levels_rev_pair:
  assumes "ls \<noteq> []" and "length (last ls) = 2"
  shows "check_levels H (rev ls) \<noteq> Inr True"
proof -
  obtain x y where xy: "last ls = [x, y]"
    using assms(2) length_two_cases by blast
  have eq: "rev ls = [x, y] # rev (butlast ls)"
    using rev_last_first[OF assms(1)] xy by simp
  have "check_nodes H [x, y] [0..<length [x, y]] \<noteq> Inr True"
    by (rule check_nodes_pair)
  then show ?thesis
    unfolding eq by (rule check_levels_first)
qed

text \<open>
  C2. The claim: \<open>check_integrity\<close> returns true right after construction. The checker
  reads the node and both of its children from the same level \<open>self.tree[level]\<close>, so it
  compares \<open>level[i]\<close> with the hash of \<open>level[2i]\<close> and \<open>level[2i+1]\<close>. The first level it
  visits is the one below the root, which has two nodes \<open>x, y\<close>: at \<open>i = 0\<close> it returns False
  unless \<open>x\<close> is the hash of \<open>x + y\<close>, and at \<open>i = 1\<close> both children are absent and
  \<open>_hash_data(None)\<close> raises. So for two or more items, and whatever the hash function is,
  the checker never returns True on the tree the constructor built.
\<close>

theorem check_integrity_never_true:
  assumes "2 \<le> length items"
  shows "check_integrity H (construct H items) \<noteq> Inr True"
proof -
  define lv where "lv = map (hash_data H) items"
  define ls where "ls = butlast (lv # build_levels H lv)"
  have len: "2 \<le> length lv" using assms by (simp add: lv_def)
  then have "build_levels H lv \<noteq> []" by (simp add: build_levels_long)
  then have ne: "ls \<noteq> []" by (simp add: ls_def)
  have two: "length (last ls) = 2"
    unfolding ls_def using len by (rule below_top_has_two)
  have "check_levels H (rev ls) \<noteq> Inr True"
    using ne two by (rule check_levels_rev_pair)
  moreover have "check_integrity H (construct H items) = check_levels H (rev ls)"
    unfolding check_integrity_def tree_construct build_tree_def ls_def lv_def
    by (simp only: butlast_conv_take)
  ultimately show ?thesis by simp
qed

theorem check_integrity_never_true_witness:
  "2 \<le> length [Str ''a'', Str ''b''] \<and>
   check_integrity bytes_as_text (construct bytes_as_text [Str ''a'', Str ''b'']) \<noteq> Inr True"
  using check_integrity_never_true[of "[Str ''a'', Str ''b'']" bytes_as_text] by simp

text \<open>On the input of the demonstration in question3.py the checker answers False.\<close>

lemma check_integrity_demo:
  "check_integrity bytes_as_text (construct bytes_as_text [Str ''a'', Str ''b'']) = Inr False"
  by code_simp




text \<open>
  On a tree the constructor built from two or more items the difference between the two
  rules is not seen in the result: the first level visited is the pair below the root,
  where node 0 has both children and node 1 has none, and the result is decided there.
\<close>

lemma check_nodes_pair_result:
  "check_nodes H [x, y] [0..<length [x, y]] =
     (if x \<noteq> hash_data H (Str (x @ y)) then Inr False else Inl TypeError)"
proof -
  have "[0..<length [x, y]] = [0, Suc 0]" by (simp add: upt_rec)
  then show ?thesis by (simp add: combine_hashes_def Let_def)
qed

lemma check_levels_decided:
  "check_nodes H lvl [0..<length lvl] = (if c then Inr False else Inl e) \<Longrightarrow>
   check_levels H (lvl # lvls) = (if c then Inr False else Inl e)"
  by (cases c) simp_all

lemma check_integrity_decided_below_top:
  assumes "2 \<le> length items"
  shows "\<exists>x y. last (butlast (tree (construct H items))) = [x, y] \<and>
           check_integrity H (construct H items) =
             (if x \<noteq> hash_data H (Str (x @ y)) then Inr False else Inl TypeError)"
proof -
  define lv where "lv = map (hash_data H) items"
  define ls where "ls = butlast (lv # build_levels H lv)"
  have len: "2 \<le> length lv" using assms by (simp add: lv_def)
  then have "build_levels H lv \<noteq> []" by (simp add: build_levels_long)
  then have ne: "ls \<noteq> []" by (simp add: ls_def)
  have two: "length (last ls) = 2"
    unfolding ls_def using len by (rule below_top_has_two)
  then obtain x y where xy: "last ls = [x, y]"
    using length_two_cases by blast
  have eq: "rev ls = [x, y] # rev (butlast ls)"
    using rev_last_first[OF ne] xy by simp
  have cl: "check_levels H (rev ls) =
          (if x \<noteq> hash_data H (Str (x @ y)) then Inr False else Inl TypeError)"
    unfolding eq using check_nodes_pair_result by (rule check_levels_decided)
  have ci: "check_integrity H (construct H items) = check_levels H (rev ls)"
    unfolding check_integrity_def tree_construct build_tree_def ls_def lv_def
    by (simp only: butlast_conv_take)
  have res: "check_integrity H (construct H items) =
          (if x \<noteq> hash_data H (Str (x @ y)) then Inr False else Inl TypeError)"
    by (rule trans[OF ci cl])
  have lst: "last (butlast (tree (construct H items))) = [x, y]"
    using xy by (simp add: tree_construct build_tree_def ls_def lv_def)
  show ?thesis
    using lst res by (intro exI[of _ x] exI[of _ y] conjI)
qed

section \<open>Proofs of inclusion\<close>

lemma next_level_nth:
  "2 * j + 1 < length xs \<Longrightarrow>
   next_level H xs ! j = hash_data H (Str (xs ! (2 * j) @ xs ! (2 * j + 1)))"
proof (induction H xs arbitrary: j rule: next_level.induct)
  case (3 H l r rest)
  then show ?case by (cases j) simp_all
qed simp_all

lemma proof_loop_even:
  assumes "even i" and "Suc i < length lvl"
  shows "proof_loop (lvl # lvls) (int i) acc =
         proof_loop lvls (int (i div 2)) (acc @ [\<lparr>hash = lvl ! Suc i, position = ''right''\<rparr>])"
proof -
  have x: "int i XOR 1 = int i + 1" using assms(1) by (simp add: xor_one_eq)
  have n: "nat (int i + 1) = Suc i" by simp
  have d: "int i div 2 = int (i div 2)" by simp
  show ?thesis using assms(2) by (simp add: x n d Let_def py_index_def del: of_nat_div)
qed

lemma proof_loop_odd:
  assumes "odd i" and "i < length lvl"
  shows "proof_loop (lvl # lvls) (int i) acc =
         proof_loop lvls (int (i div 2)) (acc @ [\<lparr>hash = lvl ! (i - 1), position = ''left''\<rparr>])"
proof -
  have pos: "0 < i" using assms(1) by (cases i) auto
  have x: "int i XOR 1 = int i - 1" using assms(1) by (simp add: xor_one_eq)
  have n: "nat (int i - 1) = i - 1" by simp
  have d: "int i div 2 = int (i div 2)" by simp
  show ?thesis using assms(2) pos by (simp add: x n d Let_def py_index_def del: of_nat_div)
qed

lemma last_level_single:
  "xs \<noteq> [] \<Longrightarrow> length (last (xs # build_levels H xs)) = 1"
proof (induction H xs rule: build_levels.induct)
  case (1 H xs)
  show ?case
  proof (cases "1 < length xs")
    case True
    then have ne: "next_level H xs \<noteq> []"
      using length_next_level[of H xs] by (cases "next_level H xs") auto
    have "length (last (next_level H xs # build_levels H (next_level H xs))) = 1"
      using "1.IH"[OF True ne] .
    then show ?thesis using True by (simp add: build_levels_long)
  next
    case False
    then have "length xs = 1" using "1.prems" by (cases xs) auto
    then show ?thesis using False by (simp add: build_levels_short)
  qed
qed

lemma py_index_last: "ls \<noteq> [] \<Longrightarrow> py_index ls (- 1) = Inr (last ls)"
  by (cases ls rule: rev_cases) (auto simp: py_index_def nth_append)

lemma py_index_first: "xs \<noteq> [] \<Longrightarrow> py_index xs 0 = Inr (hd xs)"
  by (cases xs) (auto simp: py_index_def)

lemma get_root_construct:
  assumes "items \<noteq> []"
  shows "get_root (construct H items) = Inr (Some (hd (last (tree (construct H items)))))"
proof -
  define lv where "lv = map (hash_data H) items"
  define ls where "ls = lv # build_levels H lv"
  have t: "tree (construct H items) = ls" by (simp add: tree_construct build_tree_def ls_def lv_def)
  have ne: "ls \<noteq> []" by (simp add: ls_def)
  have "lv \<noteq> []" using assms by (simp add: lv_def)
  then have "length (last ls) = 1" unfolding ls_def by (rule last_level_single)
  then have top: "last ls \<noteq> []" by auto
  show ?thesis
    unfolding get_root_def t using ne by (simp add: py_index_last py_index_first[OF top])
qed

text \<open>
  On a level of even length every node has its sibling in range, so the proof generator
  emits one step per level and the verifier, fed these steps, climbs from the leaf hash
  to the parent the builder stored at each level.
\<close>

lemma perfect_path:
  "length cur = 2 ^ k \<Longrightarrow> i < 2 ^ k \<Longrightarrow>
   \<exists>steps. proof_loop (butlast (cur # build_levels H cur)) (int i) acc = Inr (acc @ steps)
      \<and> length steps = k
      \<and> length (build_levels H cur) = k
      \<and> verify_loop H (cur ! i) steps = hd (last (cur # build_levels H cur))"
proof (induction k arbitrary: cur i acc)
  case 0
  then have "length cur = 1" and "i = 0" by simp_all
  then show ?case by (cases cur) (simp_all add: build_levels_short)
next
  case (Suc k)
  let ?nx = "next_level H cur"
  have len: "length cur = 2 * 2 ^ k" using Suc.prems(1) by simp
  have "(1::nat) \<le> 2 ^ k" by simp
  then have long: "1 < length cur" using len by linarith
  have bl: "build_levels H cur = ?nx # build_levels H ?nx"
    using long by (rule build_levels_long)
  have lnx: "length ?nx = 2 ^ k" using len by (simp add: length_next_level)
  have half: "i div 2 < 2 ^ k" using Suc.prems(2) by simp
  have bt: "butlast (cur # build_levels H cur) = cur # butlast (?nx # build_levels H ?nx)"
    by (simp add: bl)
  have lst: "last (cur # build_levels H cur) = last (?nx # build_levels H ?nx)"
    by (simp add: bl)
  have ilen: "i < length cur" using Suc.prems by simp
  show ?case
  proof (cases "even i")
    case True
    then have si: "Suc i < length cur" using ilen len by presburger
    define st where "st = \<lparr>hash = cur ! Suc i, position = ''right''\<rparr>"
    obtain steps where
      p: "proof_loop (butlast (?nx # build_levels H ?nx)) (int (i div 2)) (acc @ [st]) = Inr ((acc @ [st]) @ steps)"
      and l: "length steps = k" and b: "length (build_levels H ?nx) = k"
      and v: "verify_loop H (?nx ! (i div 2)) steps = hd (last (?nx # build_levels H ?nx))"
      using Suc.IH[OF lnx half, of "acc @ [st]"] by blast
    have j: "2 * (i div 2) = i" using True by simp
    have node: "?nx ! (i div 2) = hash_data H (Str (cur ! i @ cur ! Suc i))"
      using next_level_nth[of "i div 2" cur H] si j by simp
    have "proof_loop (butlast (cur # build_levels H cur)) (int i) acc = Inr (acc @ st # steps)"
      unfolding bt using proof_loop_even[OF True si] p by (simp add: st_def)
    moreover have "verify_loop H (cur ! i) (st # steps) = hd (last (cur # build_levels H cur))"
      unfolding lst using v node by (simp add: st_def)
    moreover have "length (st # steps) = Suc k" using l by simp
    moreover have "length (build_levels H cur) = Suc k" using b by (simp add: bl)
    ultimately show ?thesis by blast
  next
    case False
    then have ipos: "0 < i" by (cases i) auto
    define st where "st = \<lparr>hash = cur ! (i - 1), position = ''left''\<rparr>"
    obtain steps where
      p: "proof_loop (butlast (?nx # build_levels H ?nx)) (int (i div 2)) (acc @ [st]) = Inr ((acc @ [st]) @ steps)"
      and l: "length steps = k" and b: "length (build_levels H ?nx) = k"
      and v: "verify_loop H (?nx ! (i div 2)) steps = hd (last (?nx # build_levels H ?nx))"
      using Suc.IH[OF lnx half, of "acc @ [st]"] by blast
    have j: "2 * (i div 2) = i - 1" "2 * (i div 2) + 1 = i" using False by presburger+
    have node: "?nx ! (i div 2) = hash_data H (Str (cur ! (i - 1) @ cur ! i))"
      using next_level_nth[of "i div 2" cur H] ilen j by simp
    have "proof_loop (butlast (cur # build_levels H cur)) (int i) acc = Inr (acc @ st # steps)"
      unfolding bt using proof_loop_odd[OF False ilen] p by (simp add: st_def)
    moreover have "verify_loop H (cur ! i) (st # steps) = hd (last (cur # build_levels H cur))"
      unfolding lst using v node by (simp add: st_def)
    moreover have "length (st # steps) = Suc k" using l by simp
    moreover have "length (build_levels H cur) = Suc k" using b by (simp add: bl)
    ultimately show ?thesis by blast
  qed
qed

text \<open>
  C9. For a tree whose number of leaves is a power of two (one leaf included) and every
  valid index \<open>i\<close>, \<open>get_proof i\<close> returns \<open>height - 1\<close> steps, \<open>get_root\<close> returns a root, and
  \<open>verify_proof\<close> accepts the item at \<open>i\<close> with these steps and this root.
\<close>

theorem perfect_tree_round_trip:
  assumes "length items = 2 ^ k" and "0 \<le> i" and "i < 2 ^ k"
  shows "\<exists>p r. get_proof (construct H items) i = Inr p
           \<and> length p = get_tree_height (construct H items) - 1
           \<and> get_root (construct H items) = Inr (Some r)
           \<and> verify_proof H (items ! nat i) p r"
proof -
  define lv where "lv = map (hash_data H) items"
  have llv: "length lv = 2 ^ k" using assms(1) by (simp add: lv_def)
  have ni: "nat i < 2 ^ k" using assms(2,3) by (simp add: nat_less_iff)
  have ne: "items \<noteq> []" using assms(1) by auto
  obtain steps where
    p: "proof_loop (butlast (lv # build_levels H lv)) (int (nat i)) [] = Inr ([] @ steps)"
    and l: "length steps = k" and b: "length (build_levels H lv) = k"
    and v: "verify_loop H (lv ! nat i) steps = hd (last (lv # build_levels H lv))"
    using perfect_path[OF llv ni, of H "[]"] by blast
  have t: "tree (construct H items) = lv # build_levels H lv"
    by (simp add: tree_construct build_tree_def lv_def)
  have inrange: "\<not> (i < 0 \<or> int (length (leaves (construct H items))) \<le> i)"
    using assms by (simp add: leaves_construct)
  have gp: "get_proof (construct H items) i = Inr steps"
    unfolding get_proof_def t butlast_conv_take[symmetric] using inrange p assms(2) by simp
  have h: "get_tree_height (construct H items) - 1 = k"
    by (simp add: get_tree_height_def t b)
  have leaf: "lv ! nat i = hash_data H (items ! nat i)"
    using ni assms(1) by (simp add: lv_def)
  have vp: "verify_proof H (items ! nat i) steps (hd (last (tree (construct H items))))"
    unfolding verify_proof_def t using v leaf by simp
  have lh: "length steps = get_tree_height (construct H items) - 1"
    using l h by simp
  show ?thesis
    using gp lh get_root_construct[OF ne, of H] vp by blast
qed

theorem perfect_tree_round_trip_witness:
  "length [Str ''a'', Str ''b'', Str ''c'', Str ''d''] = 2 ^ 2 \<and> (0::int) \<le> 2 \<and> (2::int) < 2 ^ 2 \<and>
   (\<exists>p r. get_proof (construct bytes_as_text [Str ''a'', Str ''b'', Str ''c'', Str ''d'']) 2 = Inr p
      \<and> length p = get_tree_height (construct bytes_as_text [Str ''a'', Str ''b'', Str ''c'', Str ''d'']) - 1
      \<and> get_root (construct bytes_as_text [Str ''a'', Str ''b'', Str ''c'', Str ''d'']) = Inr (Some r)
      \<and> verify_proof bytes_as_text ([Str ''a'', Str ''b'', Str ''c'', Str ''d''] ! nat 2) p r)"
proof -
  have a: "length [Str ''a'', Str ''b'', Str ''c'', Str ''d''] = 2 ^ 2" by simp
  have b: "(0::int) \<le> 2" by simp
  have c: "(2::int) < 2 ^ 2" by simp
  show ?thesis using perfect_tree_round_trip[OF a b c, of bytes_as_text] a b c by blast
qed

text \<open>
  C1. The claim: the round trip succeeds for every leaf count, odd ones included. With
  the three items \<open>a, b, c\<close> the builder pairs the hash of \<open>c\<close> with itself, but
  \<open>get_proof 2\<close> finds no sibling at index 3 and emits no step for level 0. The verifier
  then hashes \<open>h(ab) + h(c)\<close> where the root is the hash of \<open>h(ab) + h(h(c) + h(c))\<close>:
  it accepts only if these two different texts collide under the hash function.
\<close>

theorem odd_tree_proof_rejected:
  "get_proof (construct H [Str a, Str b, Str c]) 2
     = Inr [\<lparr>hash = hash_data H (Str (hash_data H (Str a) @ hash_data H (Str b))), position = ''left''\<rparr>] \<and>
   get_root (construct H [Str a, Str b, Str c])
     = Inr (Some (hash_data H (Str (hash_data H (Str (hash_data H (Str a) @ hash_data H (Str b)))
           @ hash_data H (Str (hash_data H (Str c) @ hash_data H (Str c))))))) \<and>
   verify_proof H (Str c)
       [\<lparr>hash = hash_data H (Str (hash_data H (Str a) @ hash_data H (Str b))), position = ''left''\<rparr>]
       (hash_data H (Str (hash_data H (Str (hash_data H (Str a) @ hash_data H (Str b)))
           @ hash_data H (Str (hash_data H (Str c) @ hash_data H (Str c))))))
     = (hash_data H (Str (hash_data H (Str (hash_data H (Str a) @ hash_data H (Str b))) @ hash_data H (Str c)))
        = hash_data H (Str (hash_data H (Str (hash_data H (Str a) @ hash_data H (Str b)))
           @ hash_data H (Str (hash_data H (Str c) @ hash_data H (Str c))))))"
  by (simp add: get_proof_def get_root_def verify_proof_def construct_def build_tree_def
      build_levels.simps py_index_def Let_def)

lemma odd_tree_proof_rejected_example:
  "get_proof (construct bytes_as_text [Str ''a'', Str ''b'', Str ''c'']) 2
     = Inr [\<lparr>hash = ''ab'', position = ''left''\<rparr>] \<and>
   get_root (construct bytes_as_text [Str ''a'', Str ''b'', Str ''c'']) = Inr (Some ''abcc'') \<and>
   \<not> verify_proof bytes_as_text (Str ''c'') [\<lparr>hash = ''ab'', position = ''left''\<rparr>] ''abcc''"
  by code_simp

section \<open>Shape of the tree\<close>

lemma levels_halve:
  "Suc k < length (xs # build_levels H xs) \<Longrightarrow>
   length ((xs # build_levels H xs) ! Suc k) = (length ((xs # build_levels H xs) ! k) + 1) div 2"
proof (induction H xs arbitrary: k rule: build_levels.induct)
  case (1 H xs)
  show ?case
  proof (cases "1 < length xs")
    case True
    have bl: "build_levels H xs = next_level H xs # build_levels H (next_level H xs)"
      using True by (rule build_levels_long)
    show ?thesis
    proof (cases k)
      case 0
      then show ?thesis by (simp add: bl length_next_level)
    next
      case (Suc k')
      have "Suc k' < length (next_level H xs # build_levels H (next_level H xs))"
        using "1.prems" Suc by (simp add: bl)
      then show ?thesis using "1.IH"[OF True] Suc by (simp add: bl)
    qed
  next
    case False
    then have "build_levels H xs = []" by (simp add: build_levels_short)
    then show ?thesis using "1.prems" by simp
  qed
qed

lemma half_ceiling: "int ((n + 1) div 2) = \<lceil>real n / 2\<rceil>"
  by (rule sym) (simp add: ceiling_eq_iff, linarith)

lemma height_log:
  "1 \<le> length xs \<Longrightarrow> int (length (build_levels H xs)) = \<lceil>log 2 (real (length xs))\<rceil>"
proof (induction H xs rule: build_levels.induct)
  case (1 H xs)
  show ?case
  proof (cases "1 < length xs")
    case True
    have bl: "build_levels H xs = next_level H xs # build_levels H (next_level H xs)"
      using True by (rule build_levels_long)
    have ln: "length (next_level H xs) = (length xs - 1) div 2 + 1"
      using True by (simp add: length_next_level)
    then have "1 \<le> length (next_level H xs)" by simp
    then have ih: "int (length (build_levels H (next_level H xs)))
        = \<lceil>log 2 (real (length (next_level H xs)))\<rceil>"
      using "1.IH"[OF True] by simp
    have two: "2 \<le> length xs" using True by simp
    show ?thesis
      using ceiling_log2_div2[OF two] ih by (simp add: bl ln)
  next
    case False
    then have "length xs = 1" using "1.prems" by simp
    then show ?thesis by (simp add: build_levels_short)
  qed
qed

lemma update_leaf_rebuilds:
  assumes "0 \<le> i" and "i < int (length items)"
  shows "update_leaf H i v (construct H items) = (Inr (), construct H (items[nat i := v]))"
  using assms by (simp add: update_leaf_def construct_def Let_def map_update)

text \<open>
  C5. The tree the constructor builds has the leaf hashes, one per item and in order, as
  level 0; each further level has \<open>ceil(len / 2)\<close> nodes of the level below; for a
  non-empty input the top level has one hash; the height is \<open>ceil(log2 n) + 1\<close> for
  \<open>n > 1\<close> leaves and 1 for one leaf. A successful \<open>update_leaf\<close> leaves the object in the
  state the constructor gives for the item list with the item at \<open>index\<close> replaced, so
  every tree an update produces is a constructed tree and has this shape too.
\<close>

theorem tree_shape:
  "tree (construct H items) ! 0 = map (hash_data H) items \<and>
   (\<forall>k. Suc k < length (tree (construct H items)) \<longrightarrow>
      int (length (tree (construct H items) ! Suc k))
        = \<lceil>real (length (tree (construct H items) ! k)) / 2\<rceil>) \<and>
   (items \<noteq> [] \<longrightarrow> length (last (tree (construct H items))) = 1) \<and>
   (1 < length items \<longrightarrow>
      int (get_tree_height (construct H items)) = \<lceil>log 2 (real (length items))\<rceil> + 1) \<and>
   (length items = 1 \<longrightarrow> get_tree_height (construct H items) = 1) \<and>
   (0 \<le> i \<and> i < int (length items) \<longrightarrow>
      update_leaf H i v (construct H items) = (Inr (), construct H (items[nat i := v])))"
proof -
  define lv where "lv = map (hash_data H) items"
  have t: "tree (construct H items) = lv # build_levels H lv"
    by (simp add: tree_construct build_tree_def lv_def)
  have a: "tree (construct H items) ! 0 = map (hash_data H) items"
    by (simp add: t lv_def)
  have b: "\<forall>k. Suc k < length (tree (construct H items)) \<longrightarrow>
      int (length (tree (construct H items) ! Suc k))
        = \<lceil>real (length (tree (construct H items) ! k)) / 2\<rceil>"
    unfolding t using levels_halve[of _ lv H] half_ceiling by metis
  have c: "items \<noteq> [] \<longrightarrow> length (last (tree (construct H items))) = 1"
    unfolding t using last_level_single[of lv H] by (simp add: lv_def)
  have d: "1 < length items \<longrightarrow>
      int (get_tree_height (construct H items)) = \<lceil>log 2 (real (length items))\<rceil> + 1"
    unfolding get_tree_height_def t using height_log[of lv H] by (simp add: lv_def)
  have e: "length items = 1 \<longrightarrow> get_tree_height (construct H items) = 1"
    unfolding get_tree_height_def t by (simp add: lv_def build_levels_short)
  have f: "0 \<le> i \<and> i < int (length items) \<longrightarrow>
      update_leaf H i v (construct H items) = (Inr (), construct H (items[nat i := v]))"
    using update_leaf_rebuilds by blast
  show ?thesis using a b c d e f by blast
qed

theorem tree_shape_witness:
  "1 < length [Str ''a'', Str ''b'', Str ''c''] \<and>
   int (get_tree_height (construct bytes_as_text [Str ''a'', Str ''b'', Str ''c'']))
     = \<lceil>log 2 (real (length [Str ''a'', Str ''b'', Str ''c'']))\<rceil> + 1 \<and>
   length (last (tree (construct bytes_as_text [Str ''a'', Str ''b'', Str ''c'']))) = 1 \<and>
   int (length (tree (construct bytes_as_text [Str ''a'', Str ''b'', Str ''c'']) ! Suc 0))
     = \<lceil>real (length (tree (construct bytes_as_text [Str ''a'', Str ''b'', Str ''c'']) ! 0)) / 2\<rceil> \<and>
   get_tree_height (construct bytes_as_text [Str ''a'']) = 1 \<and>
   update_leaf bytes_as_text 1 (Str ''z'') (construct bytes_as_text [Str ''a'', Str ''b'', Str ''c''])
     = (Inr (), construct bytes_as_text ([Str ''a'', Str ''b'', Str ''c''][nat 1 := Str ''z'']))"
proof -
  have len: "Suc 0 < length (tree (construct bytes_as_text [Str ''a'', Str ''b'', Str ''c'']))"
    by (simp add: tree_construct build_tree_def build_levels.simps)
  show ?thesis
    using tree_shape[of bytes_as_text "[Str ''a'', Str ''b'', Str ''c'']" 1 "Str ''z''"]
      tree_shape[of bytes_as_text "[Str ''a'']" 0 "Str ''z''"] len
    by simp
qed

section \<open>Hashing records\<close>

lemma same_keys_same_pairs:
  assumes "distinct (map fst xs)" and "map fst xs = map fst ys" and "set xs = set ys"
  shows "xs = ys"
proof -
  have len: "length xs = length ys" using assms(2) by (rule map_eq_imp_length_eq)
  show ?thesis
  proof (rule nth_equalityI[OF len])
    fix i assume i: "i < length xs"
    then have "xs ! i \<in> set ys" using assms(3) by auto
    then obtain j where j: "j < length ys" "ys ! j = xs ! i"
      by (auto simp: in_set_conv_nth)
    have "map fst xs ! j = fst (ys ! j)" using assms(2) j(1) by simp
    then have eq: "map fst xs ! j = map fst xs ! i" using j i by simp
    have jl: "j < length (map fst xs)" using j(1) len by simp
    have il: "i < length (map fst xs)" using i by simp
    have "j = i" using nth_eq_iff_index_eq[OF assms(1) jl il] eq by blast
    then show "xs ! i = ys ! i" using j(2) by simp
  qed
qed

lemma distinct_keys_sort: "distinct (map fst (sort_key fst d)) = distinct (map fst d)"
  by (induction d) (simp_all add: distinct_insort_key)

lemma sort_key_canonical:
  assumes "distinct (map fst d1)" and "distinct (map fst d2)" and "set d1 = set d2"
  shows "sort_key fst d1 = sort_key fst d2"
proof -
  let ?xs = "sort_key fst d1" and ?ys = "sort_key fst d2"
  have s1: "sorted (map fst ?xs)" and s2: "sorted (map fst ?ys)" by simp_all
  have k1: "distinct (map fst ?xs)" using assms(1) by (simp add: distinct_keys_sort)
  have k2: "distinct (map fst ?ys)" using assms(2) by (simp add: distinct_keys_sort)
  have ks: "set (map fst ?xs) = set (map fst ?ys)" using assms(3) by simp
  have keys: "map fst ?xs = map fst ?ys"
    using s1 k1 s2 k2 ks by (rule sorted_distinct_set_unique)
  have ps: "set ?xs = set ?ys" using assms(3) by simp
  show ?thesis using k1 keys ps by (rule same_keys_same_pairs)
qed

lemma json_dumps_sorted_example: "json_dumps_sorted (\<lambda>k. k) (\<lambda>v. v) [(''name'', ''Bob''), (''id'', ''2''), (''balance'', ''200.0'')]
   = ''{balance: 200.0, id: 2, name: Bob}''"
  by code_simp

text \<open>
  C8. Two dictionaries with the same key/value pairs, whatever the order in which the keys
  were inserted, have the same leaf hash: sorting by key removes the insertion order.
  A text item is hashed as its UTF-8 bytes, with nothing done to it before.
\<close>

theorem record_hash_canonical:
  "(distinct (map fst d1) \<and> distinct (map fst d2) \<and> set d1 = set d2 \<longrightarrow>
      hash_data6 H enc_key enc_val (Dict d1) = hash_data6 H enc_key enc_val (Dict d2)) \<and>
   hash_data6 H enc_key enc_val (Text s) = H (encode_utf8 s)"
  using sort_key_canonical[of d1 d2]
  by (auto simp: hash_data6_def json_dumps_sorted_def)

theorem record_hash_canonical_witness:
  "distinct (map fst [(''id'', ''2''), (''name'', ''Bob'')]) \<and>
   distinct (map fst [(''name'', ''Bob''), (''id'', ''2'')]) \<and>
   set [(''id'', ''2''), (''name'', ''Bob'')] = set [(''name'', ''Bob''), (''id'', ''2'')] \<and>
   hash_data6 bytes_as_text (\<lambda>k. k) (\<lambda>v. v) (Dict [(''id'', ''2''), (''name'', ''Bob'')])
     = hash_data6 bytes_as_text (\<lambda>k. k) (\<lambda>v. v) (Dict [(''name'', ''Bob''), (''id'', ''2'')])"
proof -
  have a: "distinct (map fst [(''id'', ''2''), (''name'', ''Bob'')])" by simp
  have b: "distinct (map fst [(''name'', ''Bob''), (''id'', ''2'')])" by simp
  have c: "set [(''id'', ''2''), (''name'', ''Bob'')] = set [(''name'', ''Bob''), (''id'', ''2'')]"
    by (simp add: insert_commute)
  show ?thesis
    using record_hash_canonical[of "[(''id'', ''2''), (''name'', ''Bob'')]"
        "[(''name'', ''Bob''), (''id'', ''2'')]" bytes_as_text "\<lambda>k. k" "\<lambda>v. v",
        THEN conjunct1, THEN mp, OF conjI[OF a conjI[OF b c]]] a b c
    by (intro conjI)
qed

end
